theory Spec2Isabelle
  imports Main "HOL-Library.Sublist"
begin

section \<open>Text and what the interpreter brings along\<close>

text \<open>
  The lines of the log stream and the keyword are Python \<open>str\<close> values: sequences of
  Unicode code points (the stream is decoded as UTF-8). A code point is modelled as a
  integer, a text (type \<open>ustr\<close>) as a list of code points; \<open>str\<close> turns a literal of ASCII
  characters into a text.
\<close>

type_synonym codepoint = int

type_synonym ustr = "codepoint list"

definition ord :: "char \<Rightarrow> codepoint" where
  "ord c = of_char c"

definition str :: "string \<Rightarrow> ustr" where
  "str s = map ord s"

text \<open>
  \<open>stream_logs\<close> relies on three things that are not part of its source: the Unicode
  tables behind \<open>\d\<close> and behind \<open>re.IGNORECASE\<close>, and the regular expression engine
  of \<open>re\<close>. The model fixes them where it can and takes the rest as a parameter:
  \<^item> \<open>unicode_decimal c\<close>: the code point \<open>c\<close>, outside ASCII, is a decimal digit;
  \<^item> \<open>unicode_same_case k c\<close>: under \<open>re.IGNORECASE\<close> the pattern character \<open>k\<close> matches
    the character \<open>c\<close>, where one of the two lies beyond Latin-1;
  \<^item> \<open>re_outside pat ic\<close>: what \<open>re\<close> makes of a pattern outside the fragment modelled
    below, compiled with or without \<open>re.IGNORECASE\<close>: an error, or the test that
    \<open>search\<close> performs on a text.
\<close>

datatype error = Re_error | Type_error

record interpreter =
  unicode_decimal :: "codepoint \<Rightarrow> bool"
  unicode_same_case :: "codepoint \<Rightarrow> codepoint \<Rightarrow> bool"
  re_outside :: "ustr \<Rightarrow> bool \<Rightarrow> error + (ustr \<Rightarrow> bool)"

definition ESC :: codepoint where
  "ESC = 27"

definition COLOR_YELLOW :: ustr where
  "COLOR_YELLOW = ESC # str ''[93m''"

definition COLOR_RESET :: ustr where
  "COLOR_RESET = ESC # str ''[0m''"

text \<open>\<open>\d\<close>: the digits \<open>0\<close> to \<open>9\<close> within ASCII, the Unicode decimal digits beyond.\<close>

definition is_digit :: "interpreter \<Rightarrow> codepoint \<Rightarrow> bool" where
  "is_digit py c = (if c < 128 then 48 \<le> c \<and> c \<le> 57 else unicode_decimal py c)"

definition is_ascii_alnum :: "codepoint \<Rightarrow> bool" where
  "is_ascii_alnum c = ((48 \<le> c \<and> c \<le> 57) \<or> (65 \<le> c \<and> c \<le> 90) \<or> (97 \<le> c \<and> c \<le> 122))"

text \<open>
  Lower case within Latin-1: the letters \<open>A\<close> to \<open>Z\<close> and the accented capitals
  \<open>0xC0\<close> to \<open>0xDE\<close> (without the multiplication sign \<open>0xD7\<close>) move by 32.
\<close>

definition lower :: "codepoint \<Rightarrow> codepoint" where
  "lower c =
     (if (65 \<le> c \<and> c \<le> 90) \<or> (192 \<le> c \<and> c \<le> 222 \<and> c \<noteq> 215) then c + 32 else c)"

definition same_case :: "interpreter \<Rightarrow> codepoint \<Rightarrow> codepoint \<Rightarrow> bool" where
  "same_case py k c =
     (if k < 256 \<and> c < 256 then lower c = lower k else unicode_same_case py k c)"

section \<open>The regular expressions of the \<open>re\<close> module\<close>

text \<open>
  \<open>stream_logs\<close> hands two patterns to \<open>re\<close>: the constant \<open>^\d{4}-\d{2}-\d{2}\<close> and the
  keyword itself, unescaped (\<open>re.search(keyword, line, regex_flags)\<close>). A pattern of
  the modelled fragment is an alternation of branches; a branch is a sequence of items;
  an item is the start-of-text assertion or a repeated one-character atom.
\<close>

datatype atom = Literal codepoint | Any_char | Digit

datatype item = At_beginning | Repeat atom nat "nat option"

type_synonym pattern = "item list list"

fun atom_matches :: "interpreter \<Rightarrow> bool \<Rightarrow> atom \<Rightarrow> codepoint \<Rightarrow> bool" where
  "atom_matches py ic (Literal k) c = (if ic then same_case py k c else c = k)"
| "atom_matches py ic Any_char c = (c \<noteq> 10)"
| "atom_matches py ic Digit c = is_digit py c"

text \<open>
  \<open>repeat_tails py ic a lo hi s\<close> lists what can remain of \<open>s\<close> after between \<open>lo\<close> and
  \<open>hi\<close> leading characters, each matching \<open>a\<close>, have been consumed (\<open>hi = None\<close>: no
  upper bound).
\<close>

fun repeat_tails ::
  "interpreter \<Rightarrow> bool \<Rightarrow> atom \<Rightarrow> nat \<Rightarrow> nat option \<Rightarrow> ustr \<Rightarrow> ustr list" where
  "repeat_tails py ic a lo hi [] = (if lo = 0 then [[]] else [])"
| "repeat_tails py ic a lo hi (c # cs) =
     (if lo = 0 then [c # cs] else []) @
     (if hi \<noteq> Some 0 \<and> atom_matches py ic a c
      then repeat_tails py ic a (lo - 1) (map_option (\<lambda>h. h - 1) hi) cs else [])"

text \<open>
  \<open>matches_here py ic at0 items s\<close>: the branch \<open>items\<close> matches a prefix of \<open>s\<close>, where
  \<open>at0\<close> says that \<open>s\<close> starts at offset zero of the searched text.
\<close>

fun matches_here :: "interpreter \<Rightarrow> bool \<Rightarrow> bool \<Rightarrow> item list \<Rightarrow> ustr \<Rightarrow> bool" where
  "matches_here py ic at0 [] s = True"
| "matches_here py ic at0 (At_beginning # items) s = (at0 \<and> matches_here py ic at0 items s)"
| "matches_here py ic at0 (Repeat a lo hi # items) s =
     list_ex (\<lambda>t. matches_here py ic (at0 \<and> length t = length s) items t)
       (repeat_tails py ic a lo hi s)"

definition re_match :: "interpreter \<Rightarrow> pattern \<Rightarrow> bool \<Rightarrow> ustr \<Rightarrow> bool" where
  "re_match py p ic s = list_ex (\<lambda>b. matches_here py ic True b s) p"

fun search_from :: "interpreter \<Rightarrow> bool \<Rightarrow> bool \<Rightarrow> pattern \<Rightarrow> ustr \<Rightarrow> bool" where
  "search_from py ic at0 p [] = list_ex (\<lambda>b. matches_here py ic at0 b []) p"
| "search_from py ic at0 p (c # cs) =
     (list_ex (\<lambda>b. matches_here py ic at0 b (c # cs)) p \<or> search_from py ic False p cs)"

subsection \<open>Compiling a pattern given as text\<close>

text \<open>
  The parser of \<open>re\<close> reads the pattern from left to right. The characters
  \<open>.\[{()*+?^$|\<close> are special; every other character, and a backslash followed by a
  character that is no ASCII letter or digit, stands for itself. The fragment modelled
  here has literals, \<open>.\<close>, the greedy repeats \<open>*\<close>, \<open>+\<close>, \<open>?\<close> and \<open>|\<close>. Reading a
  pattern ends in one of three ways: \<open>Parsed p\<close>, a pattern of the fragment;
  \<open>Rejected\<close>, where \<open>re\<close> raises its error (a repeat with nothing before it, a closing
  parenthesis that was never opened, a pattern ending in a lone backslash); \<open>Beyond\<close>,
  at a construct outside the fragment, for which \<open>re_outside\<close> is asked.
\<close>

datatype token =
  T_atom atom | T_star | T_plus | T_quest | T_bar | T_rparen | T_bad_escape | T_other

datatype parsed = Parsed pattern | Rejected | Beyond

definition backslash :: codepoint where
  "backslash = 92"

definition token_of :: "codepoint \<Rightarrow> token" where
  "token_of c =
     (if c = ord CHR ''.'' then T_atom Any_char
      else if c = ord CHR ''*'' then T_star
      else if c = ord CHR ''+'' then T_plus
      else if c = ord CHR ''?'' then T_quest
      else if c = ord CHR ''|'' then T_bar
      else if c = ord CHR '')'' then T_rparen
      else if c \<in> set (str ''[{(^$'') then T_other
      else T_atom (Literal c))"

fun tokenize :: "ustr \<Rightarrow> token list" where
  "tokenize [] = []"
| "tokenize [c] = (if c = backslash then [T_bad_escape] else [token_of c])"
| "tokenize (c # d # cs) =
     (if c = backslash
      then (if is_ascii_alnum d then T_other else T_atom (Literal d)) # tokenize cs
      else token_of c # tokenize (d # cs))"

fun parse_tokens :: "token list \<Rightarrow> item list \<Rightarrow> pattern \<Rightarrow> parsed" where
  "parse_tokens [] cur done = Parsed (rev (rev cur # done))"
| "parse_tokens (T_atom a # T_star # ts) cur done =
     parse_tokens ts (Repeat a 0 None # cur) done"
| "parse_tokens (T_atom a # T_plus # ts) cur done =
     parse_tokens ts (Repeat a 1 None # cur) done"
| "parse_tokens (T_atom a # T_quest # ts) cur done =
     parse_tokens ts (Repeat a 0 (Some 1) # cur) done"
| "parse_tokens (T_atom a # ts) cur done =
     parse_tokens ts (Repeat a 1 (Some 1) # cur) done"
| "parse_tokens (T_bar # ts) cur done = parse_tokens ts [] (rev cur # done)"
| "parse_tokens (T_rparen # ts) cur done = Rejected"
| "parse_tokens (T_bad_escape # ts) cur done = Rejected"
| "parse_tokens (T_other # ts) cur done = Beyond"
| "parse_tokens (t # ts) cur done = (if cur = [] then Rejected else Beyond)"

definition parse_pattern :: "ustr \<Rightarrow> parsed" where
  "parse_pattern pat = parse_tokens (tokenize pat) [] []"

text \<open>
  \<open>re.compile(pat, flags)\<close>, as far as \<open>search\<close> is concerned: an error, or the test
  whether the pattern is found in a text. \<open>ic\<close> is the flag \<open>re.IGNORECASE\<close>.
\<close>

definition re_compile :: "interpreter \<Rightarrow> ustr \<Rightarrow> bool \<Rightarrow> error + (ustr \<Rightarrow> bool)" where
  "re_compile py pat ic =
     (case parse_pattern pat of
        Parsed p \<Rightarrow> Inr (search_from py ic True p)
      | Rejected \<Rightarrow> Inl Re_error
      | Beyond \<Rightarrow> re_outside py pat ic)"

text \<open>\<open>bool(re.search(pat, s, flags))\<close>\<close>

definition re_search :: "interpreter \<Rightarrow> ustr \<Rightarrow> ustr \<Rightarrow> bool \<Rightarrow> error + bool" where
  "re_search py pat s ic =
     (case re_compile py pat ic of Inl e \<Rightarrow> Inl e | Inr found \<Rightarrow> Inr (found s))"

text \<open>
  \<open>re.escape\<close> puts a backslash before each of the characters
  \<open>()[]{}?*+-|^$\.&~#\<close>, the blank and the white-space controls.
\<close>

definition escape_chars :: "codepoint list" where
  "escape_chars = str ''()[]{}?*+-|^$.&~# '' @ [backslash, 9, 10, 13, 11, 12]"

definition re_escape :: "ustr \<Rightarrow> ustr" where
  "re_escape k = concat (map (\<lambda>c. if c \<in> set escape_chars then [backslash, c] else [c]) k)"

text \<open>
  \<open>re.sub('(' + re.escape(k) + ')', YELLOW + '\1' + RESET, s, flags)\<close>. The escaped
  keyword matches exactly the texts that equal \<open>k\<close> character by character (up to case
  under \<open>ic\<close>), group 1 is the whole match, and \<open>re.sub\<close> replaces the leftmost
  occurrence, then goes on behind it. For the empty keyword the pattern matches the
  empty text at every position.
\<close>

fun literal_prefix :: "interpreter \<Rightarrow> bool \<Rightarrow> ustr \<Rightarrow> ustr \<Rightarrow> bool" where
  "literal_prefix py ic [] s = True"
| "literal_prefix py ic (k # ks) [] = False"
| "literal_prefix py ic (k # ks) (c # cs) =
     (atom_matches py ic (Literal k) c \<and> literal_prefix py ic ks cs)"

function re_sub_escaped :: "interpreter \<Rightarrow> ustr \<Rightarrow> bool \<Rightarrow> ustr \<Rightarrow> ustr" where
  "re_sub_escaped py k ic [] = (if k = [] then COLOR_YELLOW @ COLOR_RESET else [])"
| "re_sub_escaped py k ic (c # cs) =
     (if k = [] then COLOR_YELLOW @ COLOR_RESET @ c # re_sub_escaped py k ic cs
      else if literal_prefix py ic k (c # cs)
      then COLOR_YELLOW @ take (length k) (c # cs) @ COLOR_RESET @
           re_sub_escaped py k ic (drop (length k) (c # cs))
      else c # re_sub_escaped py k ic cs)"
  by pat_completeness auto
termination
  by (relation "measure (\<lambda>(py, k, ic, s). length s)") auto

section \<open>The three collaborators of the loop\<close>

text \<open>\<open>date_pattern = re.compile(r'^\d{4}-\d{2}-\d{2}')\<close>\<close>

definition date_pattern :: pattern where
  "date_pattern =
     [[At_beginning, Repeat Digit 4 (Some 4), Repeat (Literal (ord CHR ''-'')) 1 (Some 1),
       Repeat Digit 2 (Some 2), Repeat (Literal (ord CHR ''-'')) 1 (Some 1),
       Repeat Digit 2 (Some 2)]]"

text \<open>\<open>is_new_log_entry = bool(date_pattern.match(line))\<close>\<close>

definition is_new_log_entry :: "interpreter \<Rightarrow> ustr \<Rightarrow> bool" where
  "is_new_log_entry py line = re_match py date_pattern False line"

text \<open>\<open>current_line_matches = bool(re.search(keyword, line, regex_flags))\<close>\<close>

definition current_line_matches :: "interpreter \<Rightarrow> ustr \<Rightarrow> bool \<Rightarrow> ustr \<Rightarrow> error + bool" where
  "current_line_matches py keyword ignore_case line = re_search py keyword line ignore_case"

text \<open>\<open>highlighted_line = re.sub(f'({re.escape(keyword)})', ..., line, flags=regex_flags)\<close>\<close>

definition highlight :: "interpreter \<Rightarrow> ustr \<Rightarrow> bool \<Rightarrow> ustr \<Rightarrow> ustr" where
  "highlight py keyword ignore_case line = re_sub_escaped py keyword ignore_case line"

section \<open>The loop of \<open>stream_logs\<close>\<close>

text \<open>
  The loop keeps \<open>previous_line\<close> (empty: nothing buffered) and
  \<open>previous_line_matches\<close>; \<open>printed\<close> collects the arguments of the calls of
  \<open>print(..., end='')\<close> in order. \<open>keyword\<close> is \<open>None\<close> or a text.
\<close>

record state =
  previous_line :: ustr
  previous_line_matches :: bool
  printed :: "ustr list"

definition initial :: state where
  "initial = \<lparr>previous_line = [], previous_line_matches = False, printed = []\<rparr>"

definition print :: "ustr \<Rightarrow> state \<Rightarrow> state" where
  "print x st = st\<lparr>printed := printed st @ [x]\<rparr>"

text \<open>Lines 111 to 122: a new entry arrives while a line is buffered.\<close>

definition close_previous :: "interpreter \<Rightarrow> ustr \<Rightarrow> bool \<Rightarrow> state \<Rightarrow> state" where
  "close_previous py k ic st =
     (if previous_line_matches st then print (highlight py k ic (previous_line st)) st else st)
       \<lparr>previous_line := [], previous_line_matches := False\<rparr>"

text \<open>Lines 133 to 153: a continuation line.\<close>

definition continue_entry ::
  "interpreter \<Rightarrow> ustr \<Rightarrow> bool \<Rightarrow> ustr \<Rightarrow> bool \<Rightarrow> state \<Rightarrow> state" where
  "continue_entry py k ic line cur st =
     (if previous_line_matches st \<or> cur
      then (let st1 = (if previous_line st \<noteq> []
                       then (print (highlight py k ic (previous_line st)) st)
                              \<lparr>previous_line := []\<rparr>
                       else st)
            in (print (highlight py k ic line) st1)\<lparr>previous_line_matches := True\<rparr>)
      else st)"

text \<open>
  One turn of the loop body. An exception of \<open>re.search\<close> leaves the loop; what was
  printed before stays printed.
\<close>

definition step ::
  "interpreter \<Rightarrow> ustr option \<Rightarrow> bool \<Rightarrow> state \<Rightarrow> ustr \<Rightarrow> (error \<times> state) + state" where
  "step py keyword ic st line =
     (let new_entry = is_new_log_entry py line
      in case keyword of
           None \<Rightarrow> Inr (print line st)
         | Some k \<Rightarrow>
             if k = [] then Inr (print line st)
             else
               (let st1 = (if new_entry \<and> previous_line st \<noteq> []
                           then close_previous py k ic st else st)
                in case current_line_matches py k ic line of
                     Inl e \<Rightarrow> Inl (e, st1)
                   | Inr cur \<Rightarrow>
                       if new_entry
                       then Inr (st1\<lparr>previous_line := line, previous_line_matches := cur\<rparr>)
                       else Inr (continue_entry py k ic line cur st1)))"

fun run_loop ::
  "interpreter \<Rightarrow> ustr option \<Rightarrow> bool \<Rightarrow> state \<Rightarrow> ustr list \<Rightarrow> (error \<times> state) + state" where
  "run_loop py keyword ic st [] = Inr st"
| "run_loop py keyword ic st (line # rest) =
     (case step py keyword ic st line of
        Inl e \<Rightarrow> Inl e
      | Inr st' \<Rightarrow> run_loop py keyword ic st' rest)"

text \<open>
  Lines 156 to 164, after the loop. \<open>re.escape(None)\<close> raises \<open>TypeError\<close>.
\<close>

definition flush_last ::
  "interpreter \<Rightarrow> ustr option \<Rightarrow> bool \<Rightarrow> state \<Rightarrow> (error \<times> state) + state" where
  "flush_last py keyword ic st =
     (if previous_line st \<noteq> [] \<and> previous_line_matches st
      then (case keyword of
              None \<Rightarrow> Inl (Type_error, st)
            | Some k \<Rightarrow> Inr (print (highlight py k ic (previous_line st)) st))
      else Inr st)"

text \<open>
  What \<open>stream_logs\<close> does with the lines that \<open>iter(process.stdout.readline, '')\<close>
  yields: \<open>Finished out\<close> when the loop and the last flush ran through, \<open>Raised e out\<close>
  when \<open>except Exception\<close> caught \<open>e\<close>; \<open>out\<close> is what reached standard output.
\<close>

datatype outcome = Finished "ustr list" | Raised error "ustr list"

definition stream_logs :: "interpreter \<Rightarrow> ustr option \<Rightarrow> bool \<Rightarrow> ustr list \<Rightarrow> outcome" where
  "stream_logs py keyword ic lines =
     (case run_loop py keyword ic initial lines of
        Inl (e, st) \<Rightarrow> Raised e (printed st)
      | Inr st \<Rightarrow>
          (case flush_last py keyword ic st of
             Inl (e, st') \<Rightarrow> Raised e (printed st')
           | Inr st' \<Rightarrow> Finished (printed st')))"

fun stdout_of :: "outcome \<Rightarrow> ustr list" where
  "stdout_of (Finished out) = out"
| "stdout_of (Raised e out) = out"

section \<open>An interpreter for the examples\<close>

text \<open>
  The theorems of this theory hold for every interpreter. To run the model on a
  concrete input the parameter must be given: \<open>example\<close> is right about everything
  the concrete inputs of this theory consult, and is not meant to be right elsewhere.
  Of the decimal digits beyond ASCII it knows the full-width digits \<open>U+FF10\<close> to
  \<open>U+FF19\<close>; beyond Latin-1 it relates a character to itself only; of the patterns
  outside the fragment it knows the character class \<open>[EW]\<close>, found in a text that
  contains \<open>E\<close> or \<open>W\<close> (or, ignoring case, \<open>e\<close> or \<open>w\<close>), and answers every other
  one with an error.
\<close>

definition example :: interpreter where
  "example =
     \<lparr>unicode_decimal = (\<lambda>c. 65296 \<le> c \<and> c \<le> 65305),
      unicode_same_case = (\<lambda>k c. k = c),
      re_outside = (\<lambda>pat ic.
         if pat = str ''[EW]''
         then Inr (\<lambda>s. list_ex (\<lambda>c. c \<in> set (str (if ic then ''EWew'' else ''EW''))) s)
         else Inl Re_error)\<rparr>"

section \<open>What the specification says, in its own words\<close>

text \<open>
  The Line Classifier of the specification: the first ten characters are four digits, a
  hyphen, two digits, a hyphen, two digits. What counts as a digit is left open here
  and given by \<open>digit\<close>: \<open>ascii_digit\<close> reads it as \<open>0\<close> to \<open>9\<close>, \<open>decimal_digit\<close> as
  any decimal digit of Unicode.
\<close>

fun header_shape :: "(codepoint \<Rightarrow> bool) \<Rightarrow> ustr \<Rightarrow> bool" where
  "header_shape digit (a # b # c # d # e # f # g # h # i # j # rest) =
     (digit a \<and> digit b \<and> digit c \<and> digit d \<and> e = ord CHR ''-'' \<and>
      digit f \<and> digit g \<and> h = ord CHR ''-'' \<and> digit i \<and> digit j)"
| "header_shape digit line = False"

definition ascii_digit :: "codepoint \<Rightarrow> bool" where
  "ascii_digit c = (c \<in> set (str ''0123456789''))"

definition decimal_digit :: "interpreter \<Rightarrow> codepoint \<Rightarrow> bool" where
  "decimal_digit py c = (ascii_digit c \<or> (127 < c \<and> unicode_decimal py c))"

section \<open>Notions used to state the properties of the matcher\<close>

text \<open>The characters that the parser of \<open>re\<close> does not read as themselves.\<close>

definition special_chars :: "codepoint list" where
  "special_chars = str ''.[{()*+?^$|'' @ [backslash]"

text \<open>
  The Entry Matcher of the specification: the keyword occurs in the line as a text, up
  to case when \<open>ic\<close> is set.
\<close>

fun occurs_literally :: "interpreter \<Rightarrow> bool \<Rightarrow> ustr \<Rightarrow> ustr \<Rightarrow> bool" where
  "occurs_literally py ic k [] = literal_prefix py ic k []"
| "occurs_literally py ic k (c # cs) =
     (literal_prefix py ic k (c # cs) \<or> occurs_literally py ic k cs)"

text \<open>The item that a literal character compiles to.\<close>

definition literal_item :: "codepoint \<Rightarrow> item" where
  "literal_item c = Repeat (Literal c) 1 (Some 1)"

section \<open>Notions used to state the properties of the loop\<close>

text \<open>The per-line test answered \<open>True\<close>.\<close>

definition hit :: "interpreter \<Rightarrow> ustr \<Rightarrow> bool \<Rightarrow> ustr \<Rightarrow> bool" where
  "hit py k ic line = (current_line_matches py k ic line = Inr True)"

text \<open>
  What a logical entry, a header \<open>h\<close> followed by the continuation lines \<open>cs\<close>, adds
  to the output: if the header matches, the whole entry; otherwise the header and the
  continuation lines from the first matching one on; nothing if no line matches.
\<close>

definition entry_output ::
  "interpreter \<Rightarrow> ustr \<Rightarrow> bool \<Rightarrow> ustr \<Rightarrow> ustr list \<Rightarrow> ustr list" where
  "entry_output py k ic h cs =
     (if hit py k ic h then map (highlight py k ic) (h # cs)
      else (case dropWhile (\<lambda>c. \<not> hit py k ic c) cs of
              [] \<Rightarrow> []
            | r # rs \<Rightarrow> map (highlight py k ic) (h # r # rs)))"

text \<open>What closing the buffered line prints: lines 112 to 120, and 156 to 164.\<close>

definition closing :: "interpreter \<Rightarrow> ustr \<Rightarrow> bool \<Rightarrow> state \<Rightarrow> ustr list" where
  "closing py k ic st =
     (if previous_line st \<noteq> [] \<and> previous_line_matches st
      then [highlight py k ic (previous_line st)] else [])"

text \<open>Standard output of a run of the loop and the last flush that starts in \<open>st\<close>.\<close>

definition output_from ::
  "interpreter \<Rightarrow> ustr option \<Rightarrow> bool \<Rightarrow> state \<Rightarrow> ustr list \<Rightarrow> ustr list" where
  "output_from py kw ic st lines =
     (case run_loop py kw ic st lines of
        Inl (e, st') \<Rightarrow> printed st'
      | Inr st' \<Rightarrow>
          (case flush_last py kw ic st' of
             Inl (e, st'') \<Rightarrow> printed st''
           | Inr st'' \<Rightarrow> printed st''))"

text \<open>The line waiting in the buffer, as a list; the state inside a result.\<close>

definition buffered :: "state \<Rightarrow> ustr list" where
  "buffered st = (if previous_line st \<noteq> [] then [previous_line st] else [])"

fun state_of :: "(error \<times> state) + state \<Rightarrow> state" where
  "state_of (Inl (e, st)) = st"
| "state_of (Inr st) = st"

text \<open>The lines whose highlighted form one turn of the loop prints.\<close>

definition step_selection ::
  "interpreter \<Rightarrow> ustr \<Rightarrow> bool \<Rightarrow> state \<Rightarrow> ustr \<Rightarrow> ustr list" where
  "step_selection py k ic st line =
     (if is_new_log_entry py line
      then (if previous_line st \<noteq> [] \<and> previous_line_matches st then [previous_line st] else [])
      else (case current_line_matches py k ic line of
              Inl e \<Rightarrow> []
            | Inr cur \<Rightarrow> if previous_line_matches st \<or> cur then buffered st @ [line] else []))"

definition with_prefix :: "ustr list \<Rightarrow> state \<Rightarrow> state" where
  "with_prefix pfx st = st\<lparr>printed := pfx @ printed st\<rparr>"

section \<open>Notions used to state the properties of the highlighter\<close>

text \<open>
  Removing the markers from a printed line, as the specification's round trip asks:
  one pass from the left that drops every start marker and every end marker.
\<close>

function strip_markers :: "ustr \<Rightarrow> ustr" where
  "strip_markers [] = []"
| "strip_markers (c # cs) =
     (if prefix COLOR_YELLOW (c # cs)
      then strip_markers (drop (length COLOR_YELLOW) (c # cs))
      else if prefix COLOR_RESET (c # cs)
      then strip_markers (drop (length COLOR_RESET) (c # cs))
      else c # strip_markers cs)"
  by pat_completeness auto
termination
  by (relation "measure length") (auto simp: COLOR_YELLOW_def COLOR_RESET_def)








section \<open>The regular expressions: basic facts\<close>

lemma repeat_tails_exact:
  "repeat_tails py ic a n (Some n) s =
     (if n \<le> length s \<and> list_all (atom_matches py ic a) (take n s) then [drop n s] else [])"
proof (induction n arbitrary: s)
  case 0
  then show ?case by (cases s) simp_all
next
  case (Suc n)
  then show ?case by (cases s) simp_all
qed

section \<open>The Line Classifier\<close>

lemma classifier_shape: "is_new_log_entry py line = header_shape (is_digit py) line"
  unfolding is_new_log_entry_def re_match_def date_pattern_def
  by (cases "(is_digit py, line)" rule: header_shape.cases)
     (auto simp add: repeat_tails_exact eval_nat_numeral)

lemma header_not_empty: "is_new_log_entry py line \<Longrightarrow> line \<noteq> []"
  by (auto simp: classifier_shape)

lemma ascii_digit_range: "ascii_digit c = (48 \<le> c \<and> c \<le> 57)"
proof -
  have "ascii_digit c = (c \<in> {48, 49, 50, 51, 52, 53, 54, 55, 56, 57})"
    unfolding ascii_digit_def str_def ord_def by simp
  also have "\<dots> = (48 \<le> c \<and> c \<le> 57)" by (simp only: insert_iff empty_iff) arith
  finally show ?thesis .
qed

lemma is_digit_decimal: "is_digit py c = decimal_digit py c"
  by (auto simp: is_digit_def decimal_digit_def ascii_digit_range)

lemma is_digit_ascii: "c < 128 \<Longrightarrow> is_digit py c = ascii_digit c"
  by (simp add: is_digit_def ascii_digit_range)

lemma header_shape_cong:
  "(\<And>c. c \<in> set (take 10 line) \<Longrightarrow> d1 c = d2 c) \<Longrightarrow> header_shape d1 line = header_shape d2 line"
  by (cases "(d1, line)" rule: header_shape.cases) (simp_all add: eval_nat_numeral)

text \<open>
  C6, as the specification states it, with its digits read as \<open>0\<close> to \<open>9\<close>: the
  classifier also accepts a line that starts with a date written in other decimal
  digits, here the full-width digits of \<open>U+FF10\<close> to \<open>U+FF19\<close>.
\<close>

theorem full_width_date_is_header:
  "is_new_log_entry example
     [65298, 65296, 65298, 65300, 45, 65296, 65297, 45, 65296, 65297] \<and>
   \<not> header_shape ascii_digit
     [65298, 65296, 65298, 65300, 45, 65296, 65297, 45, 65296, 65297]"
  by code_simp

text \<open>The same for every interpreter whose Unicode tables know the full-width digits.\<close>

lemma full_width_date_in_general:
  assumes "\<And>c. 65296 \<le> c \<Longrightarrow> c \<le> 65305 \<Longrightarrow> unicode_decimal py c"
  shows "is_new_log_entry py [65298, 65296, 65298, 65300, 45, 65296, 65297, 45, 65296, 65297]"
  unfolding classifier_shape using assms by (simp add: is_digit_def ord_def)

text \<open>
  C6, amended: a line is classified as the start of a new entry exactly when its first
  ten characters have the shape four digits, hyphen, two digits, hyphen, two digits,
  where a digit is \<open>0\<close> to \<open>9\<close> or another decimal digit of Unicode; for a line whose
  first ten characters are ASCII the digits are \<open>0\<close> to \<open>9\<close>. No calendar check is
  made, so \<open>9999-99-99\<close> is a header. The classifier is a total function into \<open>bool\<close>.
\<close>

theorem is_new_log_entry_iff_header_shape:
  "is_new_log_entry py line = header_shape (decimal_digit py) line \<and>
   ((\<forall>c\<in>set (take 10 line). c < 128) \<longrightarrow>
      is_new_log_entry py line = header_shape ascii_digit line) \<and>
   is_new_log_entry py (str ''9999-99-99'')"
proof (intro conjI impI)
  show "is_new_log_entry py line = header_shape (decimal_digit py) line"
    unfolding classifier_shape by (rule header_shape_cong) (rule is_digit_decimal)
  show "is_new_log_entry py line = header_shape ascii_digit line"
    if "\<forall>c\<in>set (take 10 line). c < 128"
    unfolding classifier_shape using that by (intro header_shape_cong is_digit_ascii) blast
  show "is_new_log_entry py (str ''9999-99-99'')"
    by code_simp
qed

theorem is_new_log_entry_iff_header_shape_witness:
  "is_new_log_entry example (str ''2024-01-01 INFO start'') \<and>
   header_shape ascii_digit (str ''2024-01-01 INFO start'') \<and>
   \<not> is_new_log_entry example (str ''  at foo()'') \<and>
   \<not> header_shape ascii_digit (str ''  at foo()'')"
proof -
  have a: "\<forall>c\<in>set (take 10 (str ''2024-01-01 INFO start'')). c < 128" by code_simp
  have b: "\<forall>c\<in>set (take 10 (str ''  at foo()'')). c < 128" by code_simp
  have c: "header_shape ascii_digit (str ''2024-01-01 INFO start'')" by code_simp
  have d: "\<not> header_shape ascii_digit (str ''  at foo()'')" by code_simp
  show ?thesis
    using is_new_log_entry_iff_header_shape [where py = example
        and line = "str ''2024-01-01 INFO start''"]
      is_new_log_entry_iff_header_shape [where py = example and line = "str ''  at foo()''"]
      a b c d
    by blast
qed

section \<open>The Entry Matcher\<close>

text \<open>
  C2: the per-line test is meant to look for the keyword as a literal text. The loop
  passes the keyword to \<open>re.search\<close> without \<open>re.escape\<close>, so the dot of \<open>a.b\<close> stands for
  any character: the test accepts the line \<open>axb\<close>, in which \<open>a.b\<close> does not occur.
\<close>

theorem unescaped_keyword_matches_axb:
  "current_line_matches py (str ''a.b'') False (str ''axb'') = Inr True \<and>
   \<not> sublist (str ''a.b'') (str ''axb'')"
  by code_simp

text \<open>
  C3: matching is not total. For the keyword \<open>*\<close> the call of \<open>re.search\<close> raises
  \<open>re.error\<close> (nothing to repeat) on the first line; \<open>except Exception\<close> catches it and
  nothing is printed, although the line contains the keyword.
\<close>

theorem keyword_star_raises:
  "current_line_matches py (str ''*'') False (str ''2024-01-01 rate 3 * 4'') = Inl Re_error \<and>
   stream_logs py (Some (str ''*'')) False [str ''2024-01-01 rate 3 * 4''] =
     Raised Re_error []"
  by code_simp

text \<open>
  C5: a line accepted by the per-line test need not get a highlighted span. With the
  keyword \<open>a.b\<close> the test accepts \<open>axb\<close>, while the highlighter, which escapes the
  keyword, finds nothing to wrap and returns the line as it is.
\<close>

theorem matched_line_without_highlight:
  "current_line_matches py (str ''a.b'') False (str ''axb'') = Inr True \<and>
   highlight py (str ''a.b'') False (str ''axb'') = str ''axb''"
  by code_simp

subsection \<open>Keywords without special characters, and escaped keywords\<close>

text \<open>
  For a keyword without special characters the per-line test is the literal test, and
  so it would be for every keyword had the loop escaped it, as the highlighter does;
  a line in which the keyword occurs gets at least one marker.
\<close>

lemma tokenize_plain:
  "c \<noteq> backslash \<Longrightarrow> tokenize (c # rest) = token_of c # tokenize rest"
  by (cases rest) simp_all

lemma token_of_plain: "c \<notin> set special_chars \<Longrightarrow> token_of c = T_atom (Literal c)"
  by (simp add: token_of_def special_chars_def str_def ord_def)

lemma tokenize_literal:
  "\<forall>c\<in>set k. c \<notin> set special_chars \<Longrightarrow> tokenize k = map (\<lambda>c. T_atom (Literal c)) k"
proof (induction k)
  case Nil
  then show ?case by simp
next
  case (Cons c k)
  then have "c \<noteq> backslash" by (auto simp: special_chars_def)
  then show ?case using Cons by (simp add: tokenize_plain token_of_plain)
qed

lemma escape_chars_not_alnum: "c \<in> set escape_chars \<Longrightarrow> \<not> is_ascii_alnum c"
  by (auto simp: escape_chars_def is_ascii_alnum_def backslash_def str_def ord_def)

lemma special_chars_escaped: "c \<in> set special_chars \<Longrightarrow> c \<in> set escape_chars"
  by (auto simp: escape_chars_def special_chars_def str_def ord_def)

lemma tokenize_escaped: "tokenize (re_escape k) = map (\<lambda>c. T_atom (Literal c)) k"
proof (induction k)
  case Nil
  then show ?case by (simp add: re_escape_def)
next
  case (Cons c k)
  have e: "re_escape (c # k) = (if c \<in> set escape_chars then [backslash, c] else [c]) @ re_escape k"
    by (simp add: re_escape_def)
  show ?case
  proof (cases "c \<in> set escape_chars")
    case True
    then show ?thesis using Cons e escape_chars_not_alnum[OF True] by simp
  next
    case False
    then have "c \<notin> set special_chars" using special_chars_escaped by blast
    moreover have "c \<noteq> backslash" using False by (auto simp: escape_chars_def)
    ultimately show ?thesis using Cons e False by (simp add: tokenize_plain token_of_plain)
  qed
qed

lemma parse_literal_tokens:
  "parse_tokens (map (\<lambda>c. T_atom (Literal c)) k) cur done =
     Parsed (rev (rev (rev (map literal_item k) @ cur) # done))"
proof (induction k arbitrary: cur)
  case Nil
  then show ?case by simp
next
  case (Cons c k)
  show ?case
  proof (cases k)
    case Nil
    then show ?thesis by (simp add: literal_item_def)
  next
    case (Cons d k')
    then show ?thesis using Cons.IH[of "Repeat (Literal c) 1 (Some 1) # cur"]
      by (simp add: literal_item_def)
  qed
qed

lemma matches_here_literal:
  "matches_here py ic at0 (map literal_item k) s = literal_prefix py ic k s"
proof (induction k arbitrary: s at0)
  case Nil
  then show ?case by simp
next
  case (Cons c k)
  show ?case
  proof (cases s)
    case Nil
    then show ?thesis by (simp add: literal_item_def)
  next
    case (Cons d ds)
    have "repeat_tails py ic (Literal c) 1 (Some 1) (d # ds) =
            (if atom_matches py ic (Literal c) d then [ds] else [])"
      by (cases ds) simp_all
    then show ?thesis using Cons Cons.IH by (simp add: literal_item_def)
  qed
qed

lemma search_literal:
  "search_from py ic at0 [map literal_item k] s = occurs_literally py ic k s"
  by (induction s arbitrary: at0) (simp_all add: matches_here_literal)

lemma matcher_on_literal_keyword:
  assumes "\<forall>c\<in>set k. c \<notin> set special_chars"
  shows "current_line_matches py k ic line = Inr (occurs_literally py ic k line)"
  using tokenize_literal[OF assms]
  by (simp add: current_line_matches_def re_search_def re_compile_def parse_pattern_def
      parse_literal_tokens search_literal)

lemma matcher_on_escaped_keyword:
  "current_line_matches py (re_escape k) ic line = Inr (occurs_literally py ic k line)"
  by (simp add: current_line_matches_def re_search_def re_compile_def parse_pattern_def
      tokenize_escaped parse_literal_tokens search_literal)

lemma occurrence_is_highlighted:
  "k \<noteq> [] \<Longrightarrow> occurs_literally py ic k line \<Longrightarrow> ESC \<in> set (highlight py k ic line)"
  unfolding highlight_def
proof (induction py k ic line rule: re_sub_escaped.induct)
  case (1 py k ic)
  then show ?case by (cases k) simp_all
next
  case (2 py k ic c cs)
  show ?case
  proof (cases "literal_prefix py ic k (c # cs)")
    case True
    then show ?thesis using "2.prems" by (simp add: COLOR_YELLOW_def)
  next
    case False
    then have "occurs_literally py ic k cs" using "2.prems" by simp
    from "2.IH"(3)[OF "2.prems"(1) False "2.prems"(1) this]
    show ?thesis using False "2.prems" by simp
  qed
qed

lemma occurs_literally_sublist: "occurs_literally py False k line = sublist k line"
proof (induction line)
  case Nil
  then show ?case by (cases k) simp_all
next
  case (Cons c cs)
  have "literal_prefix py False k s = prefix k s" for s
    by (induction py False k s rule: literal_prefix.induct) auto
  then show ?case using Cons by (simp add: sublist_Cons_right)
qed

section \<open>No keyword: the lines pass through\<close>

lemma run_loop_no_keyword:
  "keyword = None \<or> keyword = Some [] \<Longrightarrow>
   run_loop py keyword ic st lines = Inr (st\<lparr>printed := printed st @ lines\<rparr>)"
  by (induction lines arbitrary: st) (auto simp: step_def print_def)

text \<open>
  C7: without a keyword (\<open>None\<close> or the empty text) the run ends normally, what is
  printed is the input, line by line and unchanged, and the loop never touches
  \<open>previous_line\<close> and \<open>previous_line_matches\<close>.
\<close>

theorem no_keyword_pass_through:
  assumes "keyword = None \<or> keyword = Some []"
  shows "stream_logs py keyword ic lines = Finished lines \<and>
         run_loop py keyword ic initial lines =
           Inr \<lparr>previous_line = [], previous_line_matches = False, printed = lines\<rparr>"
  using assms
  by (auto simp: stream_logs_def run_loop_no_keyword flush_last_def initial_def)

theorem no_keyword_pass_through_witness:
  "stream_logs example None True [str ''2024-01-01 a'', str ''  b'', str ''c''] =
     Finished [str ''2024-01-01 a'', str ''  b'', str ''c''] \<and>
   stream_logs example (Some []) False [str ''2024-01-01 a'', str ''  b''] =
     Finished [str ''2024-01-01 a'', str ''  b'']"
  using no_keyword_pass_through [where py = example and keyword = None and ic = True
      and lines = "[str ''2024-01-01 a'', str ''  b'', str ''c'']"]
    no_keyword_pass_through [where py = example and keyword = "Some []" and ic = False
      and lines = "[str ''2024-01-01 a'', str ''  b'']"]
  by simp

section \<open>Stickiness\<close>

text \<open>
  C1, as the specification states it, asks for three printed lines. The loop buffers
  the header only: a continuation line that arrives before any line of its entry has
  matched is dropped, so two lines are printed.
\<close>

theorem sticky_example_prints_two_lines:
  "length (stdout_of (stream_logs example (Some (str ''ERROR'')) False
      [str ''2024-01-01 INFO start'', str ''  at foo()'', str ''  at bar(): ERROR''])) = 2"
  by code_simp

text \<open>
  C1, amended: for these three lines and the keyword \<open>ERROR\<close> the header and the third
  line are printed, in this order and the third with \<open>ERROR\<close> wrapped in the colour
  markers; the second line is not printed.
\<close>

theorem sticky_example_output:
  "stream_logs py (Some (str ''ERROR'')) False
      [str ''2024-01-01 INFO start'', str ''  at foo()'', str ''  at bar(): ERROR''] =
   Finished [str ''2024-01-01 INFO start'',
             str ''  at bar(): '' @ COLOR_YELLOW @ str ''ERROR'' @ COLOR_RESET]"
  by code_simp


section \<open>The loop, entry by entry\<close>

lemma stdout_stream_logs: "stdout_of (stream_logs py kw ic lines) = output_from py kw ic initial lines"
  by (simp add: stream_logs_def output_from_def split: sum.splits prod.splits)

lemma run_loop_append:
  "run_loop py kw ic st (xs @ ys) =
     (case run_loop py kw ic st xs of Inl e \<Rightarrow> Inl e | Inr st' \<Rightarrow> run_loop py kw ic st' ys)"
  by (induction xs arbitrary: st) (simp_all split: sum.splits)

lemma compile_total:
  assumes "re_compile py k ic = Inr found"
  shows "current_line_matches py k ic line = Inr (hit py k ic line)"
  using assms by (simp add: current_line_matches_def re_search_def hit_def)

lemma compile_fails:
  assumes "re_compile py k ic = Inl e"
  shows "current_line_matches py k ic line = Inl e"
  using assms by (simp add: current_line_matches_def re_search_def)

text \<open>One turn of the loop on a header line, and on a continuation line.\<close>

lemma step_header:
  assumes "k \<noteq> []" "is_new_log_entry py h" "current_line_matches py k ic h = Inr cur"
  shows "step py (Some k) ic st h =
    Inr \<lparr>previous_line = h, previous_line_matches = cur,
         printed = printed st @ closing py k ic st\<rparr>"
  using assms
  by (cases "previous_line_matches st")
     (auto simp: step_def close_previous_def closing_def print_def Let_def)

lemma step_continuation_skip:
  assumes "k \<noteq> []" "\<not> is_new_log_entry py c" "current_line_matches py k ic c = Inr False"
    "\<not> previous_line_matches st"
  shows "step py (Some k) ic st c = Inr st"
  using assms by (simp add: step_def continue_entry_def)

lemma step_continuation_print:
  assumes "k \<noteq> []" "\<not> is_new_log_entry py c" "current_line_matches py k ic c = Inr cur"
    "previous_line_matches st \<or> cur"
  shows "step py (Some k) ic st c =
    Inr \<lparr>previous_line = [], previous_line_matches = True,
         printed = printed st @
           (if previous_line st \<noteq> [] then [highlight py k ic (previous_line st)] else []) @
           [highlight py k ic c]\<rparr>"
  using assms by (auto simp: step_def continue_entry_def print_def Let_def)


lemma run_continuations_matched:
  assumes "k \<noteq> []" "re_compile py k ic = Inr found" "\<forall>c\<in>set cs. \<not> is_new_log_entry py c"
    "previous_line_matches st" "cs \<noteq> []"
  shows "run_loop py (Some k) ic st cs =
    Inr \<lparr>previous_line = [], previous_line_matches = True,
         printed = printed st @
           (if previous_line st \<noteq> [] then [highlight py k ic (previous_line st)] else []) @
           map (highlight py k ic) cs\<rparr>"
  using assms(3-5)
proof (induction cs arbitrary: st)
  case Nil
  then show ?case by simp
next
  case (Cons c cs)
  have s: "step py (Some k) ic st c =
    Inr \<lparr>previous_line = [], previous_line_matches = True,
         printed = printed st @
           (if previous_line st \<noteq> [] then [highlight py k ic (previous_line st)] else []) @
           [highlight py k ic c]\<rparr>"
    using Cons.prems assms(1) compile_total[OF assms(2)]
    by (intro step_continuation_print) auto
  show ?case
  proof (cases "cs = []")
    case True
    then show ?thesis using s by simp
  next
    case False
    then show ?thesis using s Cons.IH Cons.prems by simp
  qed
qed

lemma run_continuations_unmatched:
  assumes "k \<noteq> []" "re_compile py k ic = Inr found" "\<forall>c\<in>set cs. \<not> is_new_log_entry py c"
    "\<not> previous_line_matches st"
  shows "run_loop py (Some k) ic st cs =
    Inr (case dropWhile (\<lambda>c. \<not> hit py k ic c) cs of
           [] \<Rightarrow> st
         | r # rs \<Rightarrow>
            \<lparr>previous_line = [], previous_line_matches = True,
             printed = printed st @
               (if previous_line st \<noteq> [] then [highlight py k ic (previous_line st)] else []) @
               map (highlight py k ic) (r # rs)\<rparr>)"
  using assms(3-4)
proof (induction cs arbitrary: st)
  case Nil
  then show ?case by simp
next
  case (Cons c cs)
  show ?case
  proof (cases "hit py k ic c")
    case False
    then have "step py (Some k) ic st c = Inr st"
      using Cons.prems assms(1) compile_total[OF assms(2), where line = c]
      by (intro step_continuation_skip) auto
    then show ?thesis using False Cons.IH[of st] Cons.prems by simp
  next
    case True
    have s: "step py (Some k) ic st c =
      Inr \<lparr>previous_line = [], previous_line_matches = True,
           printed = printed st @
             (if previous_line st \<noteq> [] then [highlight py k ic (previous_line st)] else []) @
             [highlight py k ic c]\<rparr>"
      using Cons.prems assms(1) compile_total[OF assms(2), where line = c] True
      by (intro step_continuation_print) auto
    show ?thesis
    proof (cases "cs = []")
      case True
      then show ?thesis using s \<open>hit py k ic c\<close> by simp
    next
      case False
      then show ?thesis
        using s \<open>hit py k ic c\<close> Cons.prems
          run_continuations_matched[OF assms(1,2), where cs = cs]
        by simp
    qed
  qed
qed

text \<open>After a header and its continuation lines, the state and what the entry will print.\<close>

lemma run_entry:
  assumes "k \<noteq> []" "re_compile py k ic = Inr found" "is_new_log_entry py h"
    "\<forall>c\<in>set cs. \<not> is_new_log_entry py c"
  shows "\<exists>st'. run_loop py (Some k) ic st (h # cs) = Inr st' \<and>
           printed st' @ closing py k ic st' =
             printed st @ closing py k ic st @ entry_output py k ic h cs"
proof -
  let ?s1 = "\<lparr>previous_line = h, previous_line_matches = hit py k ic h,
              printed = printed st @ closing py k ic st\<rparr>"
  have s: "step py (Some k) ic st h = Inr ?s1"
    using assms(1,3) compile_total[OF assms(2), where line = h] by (intro step_header) auto
  have hne: "h \<noteq> []" using assms(3) by (rule header_not_empty)
  show ?thesis
  proof (cases "hit py k ic h")
    case True
    show ?thesis
    proof (cases "cs = []")
      case True
      then show ?thesis using s \<open>hit py k ic h\<close> hne
        by (simp add: closing_def entry_output_def)
    next
      case False
      then show ?thesis
        using s True hne run_continuations_matched[OF assms(1,2,4), where st = ?s1]
        by (simp add: closing_def entry_output_def)
    qed
  next
    case False
    have r: "run_loop py (Some k) ic ?s1 cs =
      Inr (case dropWhile (\<lambda>c. \<not> hit py k ic c) cs of
           [] \<Rightarrow> ?s1
         | r # rs \<Rightarrow>
            \<lparr>previous_line = [], previous_line_matches = True,
             printed = printed ?s1 @
               (if previous_line ?s1 \<noteq> [] then [highlight py k ic (previous_line ?s1)] else []) @
               map (highlight py k ic) (r # rs)\<rparr>)"
      using False by (intro run_continuations_unmatched[OF assms(1,2,4)]) simp
    show ?thesis
    proof (cases "dropWhile (\<lambda>c. \<not> hit py k ic c) cs")
      case Nil
      have "run_loop py (Some k) ic ?s1 cs = Inr ?s1"
        using r unfolding Nil by simp
      moreover have "entry_output py k ic h cs = []"
        using False unfolding entry_output_def Nil by simp
      ultimately show ?thesis using s False hne
        by (simp add: closing_def)
    next
      case (Cons x xs)
      have "run_loop py (Some k) ic ?s1 cs =
        Inr \<lparr>previous_line = [], previous_line_matches = True,
             printed = printed st @ closing py k ic st @
               map (highlight py k ic) (h # x # xs)\<rparr>"
        using r hne unfolding Cons by simp
      moreover have "entry_output py k ic h cs = map (highlight py k ic) (h # x # xs)"
        using False unfolding entry_output_def Cons by simp
      ultimately show ?thesis using s
        by (simp add: closing_def)
    qed
  qed
qed

lemma run_loop_total:
  assumes "re_compile py k ic = Inr found"
  shows "\<exists>st'. run_loop py (Some k) ic st lines = Inr st'"
proof (induction lines arbitrary: st)
  case Nil
  then show ?case by simp
next
  case (Cons l ls)
  have "\<exists>st'. step py (Some k) ic st l = Inr st'"
    using compile_total[OF assms, where line = l] by (simp add: step_def Let_def)
  then show ?case using Cons.IH by auto
qed

lemma output_from_Inr:
  assumes "run_loop py (Some k) ic st lines = Inr st'"
  shows "output_from py (Some k) ic st lines = printed st' @ closing py k ic st'"
  using assms by (simp add: output_from_def flush_last_def closing_def print_def)


lemma step_with_prefix:
  "step py kw ic (with_prefix pfx st) line =
     (case step py kw ic st line of
        Inl (e, st') \<Rightarrow> Inl (e, with_prefix pfx st')
      | Inr st' \<Rightarrow> Inr (with_prefix pfx st'))"
  by (auto simp: step_def with_prefix_def close_previous_def continue_entry_def print_def
      Let_def split: option.splits sum.splits)

lemma run_loop_with_prefix:
  "run_loop py kw ic (with_prefix pfx st) lines =
     (case run_loop py kw ic st lines of
        Inl (e, st') \<Rightarrow> Inl (e, with_prefix pfx st')
      | Inr st' \<Rightarrow> Inr (with_prefix pfx st'))"
proof (induction lines arbitrary: st)
  case Nil
  then show ?case by simp
next
  case (Cons l ls)
  show ?case
    by (cases "step py kw ic st l") (auto simp: step_with_prefix Cons.IH)
qed

lemma output_from_with_prefix:
  "output_from py kw ic (with_prefix pfx st) lines = pfx @ output_from py kw ic st lines"
  unfolding output_from_def run_loop_with_prefix
  by (auto simp: flush_last_def with_prefix_def print_def split: sum.splits option.splits)

text \<open>A header line makes the rest of the run independent of the state before it.\<close>

lemma output_from_header:
  assumes "k \<noteq> []" "re_compile py k ic = Inr found" "lines = [] \<or> is_new_log_entry py (hd lines)"
  shows "output_from py (Some k) ic st lines =
           printed st @ closing py k ic st @ output_from py (Some k) ic initial lines"
proof (cases lines)
  case Nil
  then show ?thesis
    by (simp add: output_from_def flush_last_def closing_def print_def initial_def)
next
  case (Cons h rest)
  then have hd: "is_new_log_entry py h" using assms(3) by simp
  let ?s0 = "\<lparr>previous_line = h, previous_line_matches = hit py k ic h, printed = []\<rparr>"
  have a: "step py (Some k) ic st h = Inr (with_prefix (printed st @ closing py k ic st) ?s0)"
    using step_header[OF assms(1) hd compile_total[OF assms(2)], where st = st]
    by (simp add: with_prefix_def)
  have b: "step py (Some k) ic initial h = Inr ?s0"
    using step_header[OF assms(1) hd compile_total[OF assms(2)], where st = initial]
    by (simp add: initial_def closing_def)
  have "output_from py (Some k) ic st lines =
          output_from py (Some k) ic (with_prefix (printed st @ closing py k ic st) ?s0) rest"
    using a Cons by (simp add: output_from_def)
  also have "\<dots> = (printed st @ closing py k ic st) @ output_from py (Some k) ic ?s0 rest"
    by (rule output_from_with_prefix)
  also have "output_from py (Some k) ic ?s0 rest = output_from py (Some k) ic initial lines"
    using b Cons by (simp add: output_from_def)
  finally show ?thesis by simp
qed

lemma output_from_compile_error:
  assumes "k \<noteq> []" "re_compile py k ic = Inl e"
  shows "output_from py (Some k) ic initial lines = []"
proof (cases lines)
  case Nil
  then show ?thesis by (simp add: output_from_def flush_last_def initial_def)
next
  case (Cons l ls)
  have "step py (Some k) ic initial l = Inl (e, initial)"
    using assms(1) compile_fails[OF assms(2), where line = l]
    by (simp add: step_def initial_def Let_def)
  then show ?thesis using Cons by (simp add: output_from_def initial_def)
qed

lemma entry_output_compile_error:
  assumes "re_compile py k ic = Inl e"
  shows "entry_output py k ic h cs = []"
proof -
  have "\<not> hit py k ic l" for l
    using compile_fails[OF assms, where line = l] by (simp add: hit_def)
  then have nohit: "\<not> hit py k ic h" and "dropWhile (\<lambda>c. \<not> hit py k ic c) cs = []"
    by simp_all
  then show ?thesis unfolding entry_output_def by (simp only: if_False list.case)
qed

lemma entry_output_shape:
  "entry_output py k ic h cs = [] \<or>
   (\<exists>rest. suffix rest cs \<and>
      entry_output py k ic h cs = highlight py k ic h # map (highlight py k ic) rest)"
proof (cases "hit py k ic h")
  case True
  then show ?thesis by (auto simp: entry_output_def)
next
  case False
  show ?thesis
  proof (cases "dropWhile (\<lambda>c. \<not> hit py k ic c) cs")
    case Nil
    show ?thesis using False unfolding entry_output_def Nil by simp
  next
    case (Cons r rs)
    have "suffix (dropWhile (\<lambda>c. \<not> hit py k ic c) cs) cs" by (rule suffix_dropWhile)
    then have "suffix (r # rs) cs" unfolding Cons .
    moreover have "entry_output py k ic h cs = highlight py k ic h # map (highlight py k ic) (r # rs)"
      using False unfolding entry_output_def Cons by simp
    ultimately show ?thesis by blast
  qed
qed

lemma output_entry_decomposition:
  assumes "k \<noteq> []" "is_new_log_entry py h" "\<forall>c\<in>set cs. \<not> is_new_log_entry py c"
    "post = [] \<or> is_new_log_entry py (hd post)"
  shows "output_from py (Some k) ic initial (pre @ h # cs @ post) =
           output_from py (Some k) ic initial pre @ entry_output py k ic h cs @
           output_from py (Some k) ic initial post"
proof (cases "re_compile py k ic")
  case (Inl e)
  then show ?thesis
    by (simp add: output_from_compile_error[OF assms(1)] entry_output_compile_error)
next
  case (Inr p)
  obtain st where st: "run_loop py (Some k) ic initial pre = Inr st"
    using run_loop_total[OF Inr] by blast
  obtain st' where st': "run_loop py (Some k) ic st (h # cs) = Inr st'"
    and pr: "printed st' @ closing py k ic st' =
               printed st @ closing py k ic st @ entry_output py k ic h cs"
    using run_entry[OF assms(1) Inr assms(2,3), where st = st] by blast
  have "run_loop py (Some k) ic initial (pre @ (h # cs) @ post) =
          run_loop py (Some k) ic st' post"
    using st st' by (simp only: run_loop_append sum.case)
  then have "output_from py (Some k) ic initial (pre @ h # cs @ post) =
          output_from py (Some k) ic st' post"
    by (simp add: output_from_def)
  also have "\<dots> = printed st' @ closing py k ic st' @ output_from py (Some k) ic initial post"
    by (rule output_from_header[OF assms(1) Inr assms(4)])
  also have "\<dots> = (printed st @ closing py k ic st) @ entry_output py k ic h cs @
                     output_from py (Some k) ic initial post"
    using pr by simp
  also have "printed st @ closing py k ic st = output_from py (Some k) ic initial pre"
    using output_from_Inr[OF st] by simp
  finally show ?thesis by simp
qed

text \<open>
  C9: take any input and any logical entry in it: a header \<open>h\<close>, its continuation
  lines \<open>cs\<close>, the lines \<open>pre\<close> before it, and the lines \<open>post\<close> after it (none, or
  starting with the next header). What is printed is what \<open>pre\<close> alone prints, then
  the contribution \<open>entry_output\<close> of the entry, then what \<open>post\<close> alone prints. The
  contribution is empty, or the highlighted header once, followed only by highlighted
  continuation lines: the header is printed at most once, whether the entry is closed
  by the next header or by the end of the stream.
\<close>

theorem header_flushed_once_per_entry:
  assumes "k \<noteq> []" and "is_new_log_entry py h" and "\<forall>c\<in>set cs. \<not> is_new_log_entry py c"
    and "post = [] \<or> is_new_log_entry py (hd post)"
  shows "stdout_of (stream_logs py (Some k) ic (pre @ h # cs @ post)) =
           stdout_of (stream_logs py (Some k) ic pre) @ entry_output py k ic h cs @
           stdout_of (stream_logs py (Some k) ic post) \<and>
         (entry_output py k ic h cs = [] \<or>
          (\<exists>rest. suffix rest cs \<and>
             entry_output py k ic h cs = highlight py k ic h # map (highlight py k ic) rest))"
  using output_entry_decomposition[OF assms, where pre = pre]
    entry_output_shape[where py = py and k = k and ic = ic and h = h and cs = cs]
  by (simp only: stdout_stream_logs)

theorem header_flushed_once_per_entry_witness:
  "stdout_of (stream_logs example (Some (str ''ERROR'')) False
     ([str ''2024-01-01 ERROR a''] @
      str ''2024-01-02 INFO b'' # [str ''  x'', str ''  ERROR y'', str ''  z''] @
      [str ''2024-01-03 ERROR c''])) =
   stdout_of (stream_logs example (Some (str ''ERROR'')) False [str ''2024-01-01 ERROR a'']) @
   entry_output example (str ''ERROR'') False (str ''2024-01-02 INFO b'')
     [str ''  x'', str ''  ERROR y'', str ''  z''] @
   stdout_of (stream_logs example (Some (str ''ERROR'')) False [str ''2024-01-03 ERROR c'']) \<and>
   stdout_of (stream_logs example (Some (str ''[EW]'')) True
     ([str ''2024-01-01 warn a''] @
      str ''2024-01-02 INFO b'' # [str ''  x'', str ''  ERROR y'', str ''  z''] @
      [str ''2024-01-03 ok''])) =
   stdout_of (stream_logs example (Some (str ''[EW]'')) True [str ''2024-01-01 warn a'']) @
   entry_output example (str ''[EW]'') True (str ''2024-01-02 INFO b'')
     [str ''  x'', str ''  ERROR y'', str ''  z''] @
   stdout_of (stream_logs example (Some (str ''[EW]'')) True [str ''2024-01-03 ok'']) \<and>
   entry_output example (str ''[EW]'') True (str ''2024-01-02 INFO b'')
     [str ''  x'', str ''  ERROR y'', str ''  z''] =
   [str ''2024-01-02 INFO b'', str ''  ERROR y'', str ''  z'']"
proof -
  have k1: "str ''ERROR'' \<noteq> []" and k2: "str ''[EW]'' \<noteq> []" by (simp_all add: str_def)
  have h: "is_new_log_entry example (str ''2024-01-02 INFO b'')" by code_simp
  have cs: "\<forall>c\<in>set [str ''  x'', str ''  ERROR y'', str ''  z'']. \<not> is_new_log_entry example c"
    by code_simp
  have p1: "[str ''2024-01-03 ERROR c''] = [] \<or>
            is_new_log_entry example (hd [str ''2024-01-03 ERROR c''])"
    by code_simp
  have p2: "[str ''2024-01-03 ok''] = [] \<or> is_new_log_entry example (hd [str ''2024-01-03 ok''])"
    by code_simp
  have e: "entry_output example (str ''[EW]'') True (str ''2024-01-02 INFO b'')
     [str ''  x'', str ''  ERROR y'', str ''  z''] =
   [str ''2024-01-02 INFO b'', str ''  ERROR y'', str ''  z'']"
    by code_simp
  show ?thesis
    using header_flushed_once_per_entry [OF k1 h cs p1, where ic = False
        and pre = "[str ''2024-01-01 ERROR a'']", THEN conjunct1]
      header_flushed_once_per_entry [OF k2 h cs p2, where ic = True
        and pre = "[str ''2024-01-01 warn a'']", THEN conjunct1]
      e
    by (intro conjI)
qed

section \<open>The end of the stream\<close>

lemma run_loop_snoc_Inr:
  assumes "run_loop py kw ic st0 (ls @ [l]) = Inr st"
  shows "\<exists>st1. run_loop py kw ic st0 ls = Inr st1 \<and> step py kw ic st1 l = Inr st"
proof (cases "run_loop py kw ic st0 ls")
  case (Inl a)
  then show ?thesis using assms by (simp add: run_loop_append)
next
  case (Inr st1)
  then have "step py kw ic st1 l = Inr st"
    using assms by (simp add: run_loop_append split: sum.splits)
  then show ?thesis using Inr by blast
qed

lemma pending_after_step:
  assumes "k \<noteq> []" "step py (Some k) ic st0 l = Inr st"
  shows "(previous_line st \<noteq> [] \<and> previous_line_matches st) =
           (is_new_log_entry py l \<and> current_line_matches py k ic l = Inr True) \<and>
         (previous_line st \<noteq> [] \<and> previous_line_matches st \<longrightarrow> previous_line st = l)"
proof (cases "is_new_log_entry py l")
  case True
  then have "l \<noteq> []" by (rule header_not_empty)
  then show ?thesis using assms True
    by (auto simp: step_def Let_def split: sum.splits if_splits)
next
  case False
  then show ?thesis using assms
    by (auto simp: step_def Let_def continue_entry_def print_def split: sum.splits if_splits)
qed


lemma flush_output:
  assumes "run_loop py (Some k) ic initial lines = Inr st"
  shows "stream_logs py (Some k) ic lines =
           Finished (printed st @
             (if previous_line st \<noteq> [] \<and> previous_line_matches st
              then [highlight py k ic (previous_line st)] else []))"
  using assms by (simp add: stream_logs_def flush_last_def print_def)

lemma pending_at_end:
  assumes "k \<noteq> []" and "run_loop py (Some k) ic initial lines = Inr st"
  shows "((previous_line st \<noteq> [] \<and> previous_line_matches st) =
            (lines \<noteq> [] \<and> is_new_log_entry py (last lines) \<and>
             current_line_matches py k ic (last lines) = Inr True)) \<and>
         (previous_line st \<noteq> [] \<and> previous_line_matches st \<longrightarrow> previous_line st = last lines)"
proof (cases lines rule: rev_cases)
  case Nil
  then have "st = initial" using assms(2) by simp
  then show ?thesis using Nil by (simp add: initial_def)
next
  case (snoc ls l)
  have "run_loop py (Some k) ic initial (ls @ [l]) = Inr st"
    using assms(2) snoc by simp
  from run_loop_snoc_Inr[OF this] obtain st0 where "step py (Some k) ic st0 l = Inr st"
    by blast
  from pending_after_step[OF assms(1) this]
  have p: "(previous_line st \<noteq> [] \<and> previous_line_matches st) =
             (is_new_log_entry py l \<and> current_line_matches py k ic l = Inr True) \<and>
           (previous_line st \<noteq> [] \<and> previous_line_matches st \<longrightarrow> previous_line st = l)" .
  have l: "lines \<noteq> []" "last lines = l" using snoc by simp_all
  show ?thesis unfolding l(2) using p l(1) by blast
qed

text \<open>
  C8: if the keyword compiles, the loop runs through every finite input. When it has
  run through the lines and ended in state \<open>st\<close>, the last flush prints the buffered
  header, highlighted, exactly if a line is buffered and its flag is set, and prints
  nothing more otherwise. A line is buffered with its flag set exactly if the stream
  ended right after a header on which the per-line test succeeded; the buffered line
  is that header.
\<close>

theorem stream_end_flush:
  assumes "k \<noteq> []"
  shows "((\<exists>found. re_compile py k ic = Inr found) \<longrightarrow>
            (\<exists>st. run_loop py (Some k) ic initial lines = Inr st)) \<and>
         (\<forall>st. run_loop py (Some k) ic initial lines = Inr st \<longrightarrow>
            stream_logs py (Some k) ic lines =
              Finished (printed st @
                (if previous_line st \<noteq> [] \<and> previous_line_matches st
                 then [highlight py k ic (previous_line st)] else [])) \<and>
            ((previous_line st \<noteq> [] \<and> previous_line_matches st) =
               (lines \<noteq> [] \<and> is_new_log_entry py (last lines) \<and>
                current_line_matches py k ic (last lines) = Inr True)) \<and>
            (previous_line st \<noteq> [] \<and> previous_line_matches st \<longrightarrow>
               previous_line st = last lines))"
proof (intro conjI allI impI)
  assume "\<exists>found. re_compile py k ic = Inr found"
  then obtain found where "re_compile py k ic = Inr found" by blast
  then show "\<exists>st. run_loop py (Some k) ic initial lines = Inr st"
    by (rule run_loop_total)
next
  fix st
  assume r: "run_loop py (Some k) ic initial lines = Inr st"
  show "stream_logs py (Some k) ic lines =
          Finished (printed st @
            (if previous_line st \<noteq> [] \<and> previous_line_matches st
             then [highlight py k ic (previous_line st)] else []))"
    by (rule flush_output[OF r])
  show "(previous_line st \<noteq> [] \<and> previous_line_matches st) =
          (lines \<noteq> [] \<and> is_new_log_entry py (last lines) \<and>
           current_line_matches py k ic (last lines) = Inr True)"
    using pending_at_end[OF assms r] by (rule conjunct1)
  show "previous_line st = last lines"
    if "previous_line st \<noteq> [] \<and> previous_line_matches st"
    using pending_at_end[OF assms r] that by blast
qed

theorem stream_end_flush_witness:
  "stream_logs example (Some (str ''ERROR'')) False
     [str ''2024-01-01 INFO up'', str ''2024-01-02 ERROR down''] =
   Finished [str ''2024-01-02 '' @ COLOR_YELLOW @ str ''ERROR'' @ COLOR_RESET @ str '' down''] \<and>
   stream_logs example (Some (str ''[EW]'')) False
     [str ''2024-01-01 INFO up'', str ''2024-01-02 ERROR down''] =
   Finished [str ''2024-01-02 ERROR down'']"
proof -
  have k1: "str ''ERROR'' \<noteq> []" and k2: "str ''[EW]'' \<noteq> []" by (simp_all add: str_def)
  have r1: "run_loop example (Some (str ''ERROR'')) False initial
             [str ''2024-01-01 INFO up'', str ''2024-01-02 ERROR down''] =
           Inr \<lparr>previous_line = str ''2024-01-02 ERROR down'', previous_line_matches = True,
                printed = []\<rparr>"
    by code_simp
  have r2: "run_loop example (Some (str ''[EW]'')) False initial
             [str ''2024-01-01 INFO up'', str ''2024-01-02 ERROR down''] =
           Inr \<lparr>previous_line = str ''2024-01-02 ERROR down'', previous_line_matches = True,
                printed = []\<rparr>"
    by code_simp
  have h1: "highlight example (str ''ERROR'') False (str ''2024-01-02 ERROR down'') =
      str ''2024-01-02 '' @ COLOR_YELLOW @ str ''ERROR'' @ COLOR_RESET @ str '' down''"
    by code_simp
  have h2: "highlight example (str ''[EW]'') False (str ''2024-01-02 ERROR down'') =
      str ''2024-01-02 ERROR down''"
    by code_simp
  have n: "str ''2024-01-02 ERROR down'' \<noteq> []" by (simp add: str_def)
  have "stream_logs example (Some (str ''ERROR'')) False
          [str ''2024-01-01 INFO up'', str ''2024-01-02 ERROR down''] =
        Finished [highlight example (str ''ERROR'') False (str ''2024-01-02 ERROR down'')]"
    using stream_end_flush [OF k1, THEN conjunct2, rule_format, OF r1, THEN conjunct1] n
    by simp
  moreover
  have "stream_logs example (Some (str ''[EW]'')) False
          [str ''2024-01-01 INFO up'', str ''2024-01-02 ERROR down''] =
        Finished [highlight example (str ''[EW]'') False (str ''2024-01-02 ERROR down'')]"
    using stream_end_flush [OF k2, THEN conjunct2, rule_format, OF r2, THEN conjunct1] n
    by simp
  ultimately show ?thesis unfolding h1 h2 by (rule conjI)
qed

section \<open>The output is a selection of the input\<close>

lemma subseq_append_left:
  assumes "subseq (xs @ ys) zs"
  shows "subseq xs zs"
proof -
  have "subseq (xs @ []) (xs @ ys)" by (intro list_emb_append_mono) simp_all
  then show ?thesis using assms subseq_order.trans by fastforce
qed

lemma step_selects:
  assumes "k \<noteq> []"
  shows "printed (state_of (step py (Some k) ic st line)) =
           printed st @ map (highlight py k ic) (step_selection py k ic st line) \<and>
         subseq (step_selection py k ic st line @ buffered (state_of (step py (Some k) ic st line)))
           (buffered st @ [line])"
  using assms
  by (auto simp: step_def step_selection_def close_previous_def continue_entry_def print_def
      buffered_def Let_def split: sum.splits)

lemma run_loop_selects:
  assumes "k \<noteq> []"
  shows "\<exists>sel. printed (state_of (run_loop py (Some k) ic st lines)) =
                 printed st @ map (highlight py k ic) sel \<and>
               subseq (sel @ buffered (state_of (run_loop py (Some k) ic st lines)))
                 (buffered st @ lines)"
proof (induction lines arbitrary: st)
  case Nil
  show ?case by (intro exI[of _ "[]"]) simp
next
  case (Cons line rest)
  let ?r = "step py (Some k) ic st line"
  let ?s1 = "step_selection py k ic st line"
  from step_selects[OF assms, where py = py and ic = ic and st = st and line = line]
  have p1: "printed (state_of ?r) = printed st @ map (highlight py k ic) ?s1"
    and e1: "subseq (?s1 @ buffered (state_of ?r)) (buffered st @ [line])"
    by simp_all
  show ?case
  proof (cases ?r)
    case (Inl a)
    then have "run_loop py (Some k) ic st (line # rest) = ?r" by simp
    moreover have "subseq (?s1 @ buffered (state_of ?r)) (buffered st @ line # rest)"
      using e1 list_emb_append_mono[OF e1, of "[]" rest] by simp
    ultimately show ?thesis using p1 by metis
  next
    case (Inr st')
    then have run: "run_loop py (Some k) ic st (line # rest) = run_loop py (Some k) ic st' rest"
      by simp
    from Cons.IH[of st'] obtain sel where
      p2: "printed (state_of (run_loop py (Some k) ic st' rest)) =
             printed st' @ map (highlight py k ic) sel"
      and e2: "subseq (sel @ buffered (state_of (run_loop py (Some k) ic st' rest)))
                 (buffered st' @ rest)"
      by blast
    let ?b = "buffered (state_of (run_loop py (Some k) ic st' rest))"
    have "subseq (?s1 @ sel @ ?b) (?s1 @ buffered st' @ rest)"
      using e2 by (simp add: subseq_append')
    also have "subseq (?s1 @ buffered st' @ rest) ((buffered st @ [line]) @ rest)"
      using list_emb_append_mono[OF e1, of rest rest] Inr by simp
    finally have "subseq ((?s1 @ sel) @ ?b) (buffered st @ line # rest)"
      by simp
    moreover have "printed (state_of (run_loop py (Some k) ic st' rest)) =
        printed st @ map (highlight py k ic) (?s1 @ sel)"
      using p1 p2 Inr by simp
    ultimately show ?thesis unfolding run by blast
  qed
qed

text \<open>
  C10: with a keyword, the printed lines are the highlighted forms of a subsequence
  of the input lines: every printed line comes from an input line, no input line is
  printed twice, and the order is that of the input. This holds too for what was
  printed before an exception ended the run.
\<close>

theorem output_is_ordered_selection:
  assumes "k \<noteq> []"
  shows "\<exists>sel. subseq sel lines \<and>
           stdout_of (stream_logs py (Some k) ic lines) = map (highlight py k ic) sel"
proof -
  from run_loop_selects[OF assms, where py = py and ic = ic and st = initial and lines = lines]
  obtain sel where
    p: "printed (state_of (run_loop py (Some k) ic initial lines)) = map (highlight py k ic) sel"
    and e: "subseq (sel @ buffered (state_of (run_loop py (Some k) ic initial lines))) lines"
    by (auto simp: initial_def buffered_def)
  show ?thesis
  proof (cases "run_loop py (Some k) ic initial lines")
    case (Inl a)
    obtain er st where a: "a = (er, st)" by (cases a)
    have "subseq sel lines" using e by (rule subseq_append_left)
    then show ?thesis using p Inl a by (auto simp: stream_logs_def)
  next
    case (Inr st)
    show ?thesis
    proof (cases "previous_line st \<noteq> [] \<and> previous_line_matches st")
      case True
      then have "stdout_of (stream_logs py (Some k) ic lines) = map (highlight py k ic) (sel @ buffered st)"
        using p Inr by (simp add: stream_logs_def flush_last_def print_def buffered_def)
      then show ?thesis using e Inr by auto
    next
      case False
      then have "stdout_of (stream_logs py (Some k) ic lines) = map (highlight py k ic) sel"
        using p Inr by (auto simp add: stream_logs_def flush_last_def)
      moreover have "subseq sel lines" using e by (rule subseq_append_left)
      ultimately show ?thesis by blast
    qed
  qed
qed

theorem output_is_ordered_selection_witness:
  "(\<exists>sel. subseq sel [str ''2024-01-01 INFO start'', str ''  at foo()'', str ''  at bar(): ERROR''] \<and>
     stdout_of (stream_logs example (Some (str ''ERROR'')) False
       [str ''2024-01-01 INFO start'', str ''  at foo()'', str ''  at bar(): ERROR'']) =
     map (highlight example (str ''ERROR'') False) sel) \<and>
   (\<exists>sel. subseq sel [str ''2024-01-01 INFO start'', str ''  at foo()'', str ''  at bar(): ERROR''] \<and>
     stdout_of (stream_logs example (Some (str ''[EW]'')) False
       [str ''2024-01-01 INFO start'', str ''  at foo()'', str ''  at bar(): ERROR'']) =
     map (highlight example (str ''[EW]'') False) sel) \<and>
   stdout_of (stream_logs example (Some (str ''[EW]'')) False
     [str ''2024-01-01 INFO start'', str ''  at foo()'', str ''  at bar(): ERROR'']) =
   [str ''2024-01-01 INFO start'', str ''  at bar(): ERROR'']"
proof -
  have k1: "str ''ERROR'' \<noteq> []" and k2: "str ''[EW]'' \<noteq> []" by (simp_all add: str_def)
  have e: "stdout_of (stream_logs example (Some (str ''[EW]'')) False
     [str ''2024-01-01 INFO start'', str ''  at foo()'', str ''  at bar(): ERROR'']) =
   [str ''2024-01-01 INFO start'', str ''  at bar(): ERROR'']"
    by code_simp
  show ?thesis
    using output_is_ordered_selection [OF k1] output_is_ordered_selection [OF k2] e
    by (intro conjI)
qed


section \<open>The Highlighter\<close>


















text \<open>The same for every interpreter: the keyword \<open>boom\<close> has no letter beyond Latin-1.\<close>

lemma strip_loses_reset_in_general:
  "strip_markers (highlight py (str ''boom'') False
     (ESC # str ''[91mERROR'' @ COLOR_RESET @ str '' boom'')) \<noteq>
   ESC # str ''[91mERROR'' @ COLOR_RESET @ str '' boom''"
  by code_simp



end
